theory Spec2Isabelle
  imports Complex_Main
begin

section \<open>JavaScript numbers\<close>

text \<open>
  A JavaScript \<^verbatim>\<open>number\<close> is modelled as an exact rational, the two infinities or
  \<^verbatim>\<open>NaN\<close>. The arithmetic follows IEEE 754 on the special values (\<^verbatim>\<open>Infinity - Infinity\<close>,
  \<^verbatim>\<open>0 * Infinity\<close> and \<^verbatim>\<open>0 / 0\<close> are \<^verbatim>\<open>NaN\<close>; every comparison with \<^verbatim>\<open>NaN\<close> is false).
  Rounding, overflow of finite values and the sign of zero are not part of the model.
\<close>

datatype jsnum = Fin rat | PInf | NInf | NaN


fun js_positive :: "jsnum \<Rightarrow> bool" where
  "js_positive (Fin r) = (0 < r)"
| "js_positive PInf = True"
| "js_positive NInf = False"
| "js_positive NaN = False"

fun js_neg :: "jsnum \<Rightarrow> jsnum" where
  "js_neg (Fin r) = Fin (- r)"
| "js_neg PInf = NInf"
| "js_neg NInf = PInf"
| "js_neg NaN = NaN"

fun js_add :: "jsnum \<Rightarrow> jsnum \<Rightarrow> jsnum" where
  "js_add NaN v = NaN"
| "js_add u NaN = NaN"
| "js_add (Fin r) (Fin q) = Fin (r + q)"
| "js_add PInf NInf = NaN"
| "js_add NInf PInf = NaN"
| "js_add PInf v = PInf"
| "js_add u PInf = PInf"
| "js_add NInf v = NInf"
| "js_add u NInf = NInf"

definition js_sub :: "jsnum \<Rightarrow> jsnum \<Rightarrow> jsnum" where
  "js_sub u v = js_add u (js_neg v)"

fun js_mul :: "jsnum \<Rightarrow> jsnum \<Rightarrow> jsnum" where
  "js_mul NaN v = NaN"
| "js_mul u NaN = NaN"
| "js_mul (Fin r) (Fin q) = Fin (r * q)"
| "js_mul u v =
     (if u = Fin 0 \<or> v = Fin 0 then NaN
      else if js_positive u = js_positive v then PInf else NInf)"

fun js_div :: "jsnum \<Rightarrow> jsnum \<Rightarrow> jsnum" where
  "js_div NaN v = NaN"
| "js_div u NaN = NaN"
| "js_div (Fin r) (Fin q) =
     (if q = 0 then (if r = 0 then NaN else if 0 < r then PInf else NInf)
      else Fin (r / q))"
| "js_div (Fin r) v = Fin 0"
| "js_div u (Fin q) = (if (u = PInf) = (0 \<le> q) then PInf else NInf)"
| "js_div u v = NaN"

fun js_abs :: "jsnum \<Rightarrow> jsnum" where
  "js_abs (Fin r) = Fin \<bar>r\<bar>"
| "js_abs PInf = PInf"
| "js_abs NInf = PInf"
| "js_abs NaN = NaN"

fun js_gt :: "jsnum \<Rightarrow> jsnum \<Rightarrow> bool" where
  "js_gt (Fin r) (Fin q) = (q < r)"
| "js_gt PInf (Fin q) = True"
| "js_gt PInf NInf = True"
| "js_gt (Fin r) NInf = True"
| "js_gt u v = False"

section \<open>The downsampling function of App.tsx\<close>

text \<open>A data point \<^verbatim>\<open>{ x: number; y: number }\<close>.\<close>

record point =
  px :: jsnum
  py :: jsnum

text \<open>
  The variables that live across the iterations of the bucket loop of
  \<^verbatim>\<open>largestTriangleThreeBuckets\<close>: the output array \<^verbatim>\<open>sampled\<close> (its write index
  \<^verbatim>\<open>sampledIndex\<close> is always its length, so a write is an append), the index \<^verbatim>\<open>a\<close>, and
  \<^verbatim>\<open>maxAreaPoint\<close> with \<^verbatim>\<open>nextA\<close>. The last two are declared before the loop, start
  undefined and are only ever assigned together (lines 73 and 74), so they are one optional pair.
\<close>

record lttb_vars =
  sampled :: "point list"
  a_index :: nat
  maxAreaPoint_nextA :: "(point \<times> nat) option"

text \<open>
  \<^verbatim>\<open>Math.floor(k * every)\<close>, for \<^verbatim>\<open>every\<close> kept as the exact quotient.
\<close>

definition floorTimes :: "nat \<Rightarrow> rat \<Rightarrow> nat" where
  "floorTimes k every = nat \<lfloor>of_nat k * every\<rfloor>"

text \<open>
  Line 33: the bucket size \<^verbatim>\<open>every = (dataLength - 2) / (threshold - 2)\<close>. For a
  threshold of 2 the source divides by zero; the loop that uses the value does not run then.
\<close>

definition bucketSize :: "nat \<Rightarrow> nat \<Rightarrow> rat" where
  "bucketSize dataLength threshold = of_int (int dataLength - 2) / of_int (int threshold - 2)"

text \<open>Lines 45 to 56: the average point of the next bucket.\<close>

definition bucketAverage :: "point list \<Rightarrow> rat \<Rightarrow> nat \<Rightarrow> jsnum \<times> jsnum" where
  "bucketAverage data every i =
     (let avgRangeStart = floorTimes (i + 1) every + 1;
          avgRangeEnd = min (floorTimes (i + 2) every + 1) (length data);
          avgRangeLength = int avgRangeEnd - int avgRangeStart;
          (avgX, avgY) =
            foldl (\<lambda>(sx, sy) k. (js_add sx (px (data ! k)), js_add sy (py (data ! k))))
              (Fin 0, Fin 0) [avgRangeStart..<avgRangeEnd]
      in (js_div avgX (Fin (of_int avgRangeLength)), js_div avgY (Fin (of_int avgRangeLength))))"

text \<open>Line 70: the area of the triangle over three buckets.\<close>

definition triangleArea :: "point \<Rightarrow> jsnum \<times> jsnum \<Rightarrow> point \<Rightarrow> jsnum" where
  "triangleArea pointA avg p =
     js_mul
       (js_abs
          (js_sub
             (js_mul (js_sub (px pointA) (fst avg)) (js_sub (py p) (py pointA)))
             (js_mul (js_sub (px pointA) (px p)) (js_sub (snd avg) (py pointA)))))
       (Fin (1 / 2))"

text \<open>
  Lines 66 to 76: the scan of one bucket. The state is \<^verbatim>\<open>maxArea\<close> and the pair
  \<^verbatim>\<open>maxAreaPoint\<close>, \<^verbatim>\<open>nextA\<close>; a candidate replaces them only when its area is
  strictly greater.
\<close>

definition scanCandidate ::
  "point list \<Rightarrow> point \<Rightarrow> jsnum \<times> jsnum \<Rightarrow> jsnum \<times> (point \<times> nat) option \<Rightarrow> nat
     \<Rightarrow> jsnum \<times> (point \<times> nat) option" where
  "scanCandidate data pointA avg st rangeOffs =
     (let area = triangleArea pointA avg (data ! rangeOffs)
      in if js_gt area (fst st) then (area, Some (data ! rangeOffs, rangeOffs)) else st)"

definition scanBucket ::
  "point list \<Rightarrow> point \<Rightarrow> jsnum \<times> jsnum \<Rightarrow> (point \<times> nat) option \<Rightarrow> nat \<Rightarrow> nat
     \<Rightarrow> (point \<times> nat) option" where
  "scanBucket data pointA avg prev rangeOffs rangeTo =
     snd (foldl (scanCandidate data pointA avg) (Fin (- 1), prev) [rangeOffs..<rangeTo])"

text \<open>Lines 43 to 82: one iteration of the bucket loop.\<close>

definition bucketStep :: "point list \<Rightarrow> rat \<Rightarrow> lttb_vars \<Rightarrow> nat \<Rightarrow> lttb_vars" where
  "bucketStep data every v i =
     (let avg = bucketAverage data every i;
          rangeOffs = floorTimes i every + 1;
          rangeTo = floorTimes (i + 1) every + 1;
          pointA = data ! a_index v;
          found = scanBucket data pointA avg (maxAreaPoint_nextA v) rangeOffs rangeTo
      in case found of
           None \<Rightarrow> v\<lparr>maxAreaPoint_nextA := found\<rparr>
         | Some (maxAreaPoint, nextA) \<Rightarrow>
             v\<lparr>sampled := sampled v @ [maxAreaPoint], a_index := nextA,
               maxAreaPoint_nextA := found\<rparr>)"

text \<open>
  Lines 23 to 87. \<^verbatim>\<open>threshold\<close> is a count (the caller passes the constant 1000), so it is
  a natural number; the loop \<^verbatim>\<open>for (i = 0; i < threshold - 2; i++)\<close> does not run for a
  threshold of 1 or 2, where \<^verbatim>\<open>every\<close> is not used. Past the first test
  \<^verbatim>\<open>threshold < dataLength\<close> holds, so \<^verbatim>\<open>data[0]\<close> and \<^verbatim>\<open>data[dataLength - 1]\<close> exist.
\<close>

definition largestTriangleThreeBuckets :: "point list \<Rightarrow> nat \<Rightarrow> point list" where
  "largestTriangleThreeBuckets data threshold =
     (let dataLength = length data
      in if threshold \<ge> dataLength \<or> threshold = 0 then data
         else
           let every = bucketSize dataLength threshold;
               v0 = \<lparr>sampled = [data ! 0], a_index = 0, maxAreaPoint_nextA = None\<rparr>;
               v = foldl (bucketStep data every) v0 [0..<threshold - 2]
           in sampled v @ [data ! (dataLength - 1)])"


section \<open>Traces and parsed files (types.ts)\<close>

text \<open>
  A cell of a parsed row, as the CSV parser's dynamic typing leaves it: a number, a string,
  a boolean or \<^verbatim>\<open>null\<close>; reading a column that the row does not have gives
  \<^verbatim>\<open>undefined\<close>. A row is read by column name only, so it is a function from names to cells.
\<close>

datatype cell = CNum jsnum | CStr string | CBool bool | CNull | CUndefined

type_synonym row = "string \<Rightarrow> cell"

text \<open>
  \<^verbatim>\<open>PlotlyTrace\<close>, with the nested objects \<^verbatim>\<open>line\<close> and \<^verbatim>\<open>_headers\<close> flattened into
  fields; \<^verbatim>\<open>line.dash\<close> is optional.
\<close>

record PlotlyTrace =
  trace_x :: "cell list"
  trace_y :: "cell list"
  trace_mode :: string
  trace_name :: string
  line_width :: nat
  line_dash :: "string option"
  headers_x :: string
  headers_y :: string

section \<open>The environment of App.tsx\<close>

text \<open>
  The result of \<^verbatim>\<open>Papa.parse\<close>, a library loaded from a CDN: the messages of
  \<^verbatim>\<open>res.errors\<close>, the rows \<^verbatim>\<open>res.data\<close> and the header \<^verbatim>\<open>res.meta.fields\<close>. The parser
  and the conversion of a string by \<^verbatim>\<open>Number\<close> are parameters of the model.
\<close>

record papa_result =
  res_errors :: "string list"
  res_data :: "row list"
  meta_fields :: "string list option"

record env =
  papaParse :: "string \<Rightarrow> papa_result"
  stringToNumber :: "string \<Rightarrow> jsnum"

text \<open>\<^verbatim>\<open>Number(v)\<close> on a cell.\<close>

fun toNumber :: "env \<Rightarrow> cell \<Rightarrow> jsnum" where
  "toNumber e (CNum n) = n"
| "toNumber e (CStr s) = stringToNumber e s"
| "toNumber e (CBool b) = (if b then Fin 1 else Fin 0)"
| "toNumber e CNull = Fin 0"
| "toNumber e CUndefined = NaN"

text \<open>
  A submitted \<^verbatim>\<open>File\<close>: its name and what its \<^verbatim>\<open>FileReader\<close> will deliver, the text
  (\<^verbatim>\<open>onload\<close>) or a failure (\<^verbatim>\<open>onerror\<close>).
\<close>

datatype read_outcome = Loaded string | ReadFailed

record File =
  file_name :: string
  file_read :: read_outcome

definition LINE_STYLES :: "string list" where
  "LINE_STYLES = [''solid'', ''dash'', ''dot'', ''dashdot'', ''longdash'', ''longdashdot'']"

definition DOWNSAMPLING_THRESHOLD :: nat where
  "DOWNSAMPLING_THRESHOLD = 5000"

definition DOWNSAMPLED_POINT_COUNT :: nat where
  "DOWNSAMPLED_POINT_COUNT = 1000"

text \<open>The \<^verbatim>\<open>useState\<close> cells of the component (lines 91 to 100).\<close>

record app_state =
  parsedFileData :: "string \<rightharpoonup> PlotlyTrace list"
  fileOrder :: "string list"
  selectedFiles :: "string set"
  xAxisTitle :: string
  yAxisTitle :: string
  error :: "string option"
  fileStyles :: "string \<rightharpoonup> string"
  downsampledFiles :: "string set"
  isDragOver :: bool
  isLoading :: bool

definition initialState :: app_state where
  "initialState =
     \<lparr>parsedFileData = Map.empty, fileOrder = [], selectedFiles = {}, xAxisTitle = [],
      yAxisTitle = [], error = None, fileStyles = Map.empty, downsampledFiles = {},
      isDragOver = False, isLoading = False\<rparr>"

section \<open>processFiles\<close>

subsection \<open>Promise.all over the file reads\<close>

text \<open>
  Each read is a promise that settles once, fulfilled (\<open>Inr\<close>) or rejected with a message
  (\<open>Inl\<close>). The reads complete in some order, given as the list of the indices of the
  promises in the order in which their events arrive. \<^verbatim>\<open>Promise.all\<close> stores every fulfilled
  value at the index of its promise, rejects with the reason of the first rejection to arrive,
  is fulfilled with the values in the order of the promises once all are fulfilled, and stays
  pending as long as a read has not completed. An index that names no promise, or one that has
  settled already, is ignored.
\<close>

datatype 'a settled = Pending | Rejected string | Fulfilled 'a

fun promiseAll_run :: "(string + 'a) list \<Rightarrow> nat list \<Rightarrow> 'a option list \<Rightarrow> 'a list settled" where
  "promiseAll_run ps [] slots =
     (case those slots of None \<Rightarrow> Pending | Some values \<Rightarrow> Fulfilled values)"
| "promiseAll_run ps (i # completion) slots =
     (if length ps \<le> i \<or> slots ! i \<noteq> None then promiseAll_run ps completion slots
      else case ps ! i of
             Inl reason \<Rightarrow> Rejected reason
           | Inr v \<Rightarrow> promiseAll_run ps completion (slots[i := Some v]))"

definition promiseAll :: "(string + 'a) list \<Rightarrow> nat list \<Rightarrow> 'a list settled" where
  "promiseAll ps completion = promiseAll_run ps completion (replicate (length ps) None)"

text \<open>Lines 117 to 124: the promise of one file read.\<close>

definition fileReadPromise :: "File \<Rightarrow> string + (string \<times> string)" where
  "fileReadPromise f =
     (case file_read f of
        Loaded content \<Rightarrow> Inr (file_name f, content)
      | ReadFailed \<Rightarrow> Inl (''Error reading '' @ file_name f))"

subsection \<open>The parse callback\<close>

text \<open>
  The variables that the \<^verbatim>\<open>then\<close> callback declares (lines 127 to 130) and the
  \<^verbatim>\<open>complete\<close> callbacks update, together with the last message passed to
  \<^verbatim>\<open>setError\<close> by a callback, if any.
\<close>

record batch_vars =
  newParsedData :: "string \<rightharpoonup> PlotlyTrace list"
  newFileNames :: "string list"
  newStyles :: "string \<rightharpoonup> string"
  newDownsampledFiles :: "string set"
  reportedError :: "string option"

definition emptyBatch :: batch_vars where
  "emptyBatch =
     \<lparr>newParsedData = Map.empty, newFileNames = [], newStyles = Map.empty,
      newDownsampledFiles = {}, reportedError = None\<rparr>"

text \<open>Lines 153 to 172: the trace of one column.\<close>

definition columnTrace :: "env \<Rightarrow> string \<Rightarrow> row list \<Rightarrow> string \<Rightarrow> string \<Rightarrow> PlotlyTrace" where
  "columnTrace e fileName rows xHeader yHeader =
     (let yData = map (\<lambda>row. row yHeader) rows;
          xData = map (\<lambda>row. row xHeader) rows;
          (xData', yData') =
            (if length xData > DOWNSAMPLING_THRESHOLD then
               let combinedData = map2 (\<lambda>x y. \<lparr>px = toNumber e x, py = toNumber e y\<rparr>) xData yData;
                   sampled = largestTriangleThreeBuckets combinedData DOWNSAMPLED_POINT_COUNT
               in (map (\<lambda>p. CNum (px p)) sampled, map (\<lambda>p. CNum (py p)) sampled)
             else (xData, yData))
      in \<lparr>trace_x = xData', trace_y = yData', trace_mode = ''lines'',
          trace_name = yHeader @ '' ('' @ fileName @ '')'',
          line_width = 2, line_dash = None, headers_x = xHeader, headers_y = yHeader\<rparr>)"

text \<open>
  Lines 137 to 181: the \<^verbatim>\<open>complete\<close> callback for one file. \<open>closureFileOrder\<close> is the
  value of \<^verbatim>\<open>fileOrder\<close> that the callback closes over, the one of the render in which
  \<^verbatim>\<open>processFiles\<close> was called. The column loop starts at index 1, so it runs over the tail
  of the header.
\<close>

definition parseComplete :: "env \<Rightarrow> string list \<Rightarrow> batch_vars \<Rightarrow> string \<times> string \<Rightarrow> batch_vars" where
  "parseComplete e closureFileOrder acc fc =
     (let fileName = fst fc;
          res = papaParse e (snd fc)
      in if res_errors res \<noteq> [] then
           acc\<lparr>reportedError :=
                 Some (''Parsing error in '' @ fileName @ '': '' @ hd (res_errors res))\<rparr>
         else
           case meta_fields res of
             None \<Rightarrow> acc
           | Some headers \<Rightarrow>
               if res_data res = [] \<or> length headers < 2 then acc
               else
                 let xHeader = hd headers;
                     fileTraces = map (columnTrace e fileName (res_data res) xHeader) (tl headers);
                     acc' =
                       (if tl headers \<noteq> [] \<and> length (res_data res) > DOWNSAMPLING_THRESHOLD
                        then acc\<lparr>newDownsampledFiles := insert fileName (newDownsampledFiles acc)\<rparr>
                        else acc)
                 in if length fileTraces > 0 then
                      let names = newFileNames acc' @ [fileName];
                          styleIndex =
                            (length closureFileOrder + length names - 1) mod length LINE_STYLES
                      in acc'\<lparr>newParsedData := (newParsedData acc')(fileName \<mapsto> fileTraces),
                              newFileNames := names,
                              newStyles := (newStyles acc')(fileName \<mapsto> LINE_STYLES ! styleIndex)\<rparr>
                    else acc')"

subsection \<open>The merge and the whole function\<close>

text \<open>
  Lines 185 to 191: the five functional updates, applied to the state \<open>prev\<close> that is
  current when the callback runs.
\<close>

definition mergeBatch :: "batch_vars \<Rightarrow> app_state \<Rightarrow> app_state" where
  "mergeBatch acc prev =
     (if length (newFileNames acc) > 0 then
        prev\<lparr>parsedFileData := parsedFileData prev ++ newParsedData acc,
             fileOrder := fileOrder prev @ newFileNames acc,
             selectedFiles := selectedFiles prev \<union> set (newFileNames acc),
             fileStyles := fileStyles prev ++ newStyles acc,
             downsampledFiles := downsampledFiles prev \<union> newDownsampledFiles acc\<rparr>
      else prev)"

text \<open>Line 111: the files whose name is not a key of \<^verbatim>\<open>parsedFileData\<close>.\<close>

definition newFilesOf :: "app_state \<Rightarrow> File list \<Rightarrow> File list" where
  "newFilesOf s files = filter (\<lambda>f. parsedFileData s (file_name f) = None) files"

text \<open>Lines 126 to 191: the \<^verbatim>\<open>then\<close> callback on the contents of all files.\<close>

definition processResults :: "env \<Rightarrow> string list \<Rightarrow> (string \<times> string) list \<Rightarrow> app_state \<Rightarrow> app_state" where
  "processResults e closureFileOrder results prev =
     (let acc = foldl (parseComplete e closureFileOrder) emptyBatch results;
          prev' = (case reportedError acc of None \<Rightarrow> prev | Some msg \<Rightarrow> prev\<lparr>error := Some msg\<rparr>)
      in mergeBatch acc prev')"

text \<open>
  Lines 105 to 202. A batch is submitted and handled in one step, on the state it was
  submitted from; \<open>completion\<close> is the order in which the reads of the new files complete.
  While a read has not completed the promise stays pending and \<^verbatim>\<open>isLoading\<close> stays set.
\<close>

definition processFiles :: "env \<Rightarrow> app_state \<Rightarrow> File list \<Rightarrow> nat list \<Rightarrow> app_state" where
  "processFiles e s files completion =
     (if length files = 0 then s
      else
        let s1 = s\<lparr>isLoading := True, error := None\<rparr>;
            newFiles = newFilesOf s files
        in if length newFiles = 0 then s1\<lparr>isLoading := False\<rparr>
           else
             case promiseAll (map fileReadPromise newFiles) completion of
               Pending \<Rightarrow> s1
             | Rejected msg \<Rightarrow> s1\<lparr>error := Some msg, isLoading := False\<rparr>
             | Fulfilled results \<Rightarrow>
                 (processResults e (fileOrder s) results s1)\<lparr>isLoading := False\<rparr>)"

section \<open>The other handlers\<close>

definition handleClearAll :: "app_state \<Rightarrow> app_state" where
  "handleClearAll s =
     s\<lparr>parsedFileData := Map.empty, fileOrder := [], selectedFiles := {}, xAxisTitle := [],
       yAxisTitle := [], error := None, fileStyles := Map.empty, downsampledFiles := {}\<rparr>"

definition handleSelectionChange :: "app_state \<Rightarrow> string \<Rightarrow> app_state" where
  "handleSelectionChange s fileName =
     s\<lparr>selectedFiles :=
         (if fileName \<in> selectedFiles s then selectedFiles s - {fileName}
          else insert fileName (selectedFiles s))\<rparr>"

definition handleStyleChange :: "app_state \<Rightarrow> string \<Rightarrow> string \<Rightarrow> app_state" where
  "handleStyleChange s fileName style = s\<lparr>fileStyles := (fileStyles s)(fileName \<mapsto> style)\<rparr>"

text \<open>The events that change the state, and a run of them from a state.\<close>

datatype action =
    ProcessFiles "File list" "nat list"
  | ClearAll
  | SelectionChange string
  | StyleChange string string
  | SetXAxisTitle string
  | SetYAxisTitle string

fun step :: "env \<Rightarrow> app_state \<Rightarrow> action \<Rightarrow> app_state" where
  "step e s (ProcessFiles files completion) = processFiles e s files completion"
| "step e s ClearAll = handleClearAll s"
| "step e s (SelectionChange fileName) = handleSelectionChange s fileName"
| "step e s (StyleChange fileName style) = handleStyleChange s fileName style"
| "step e s (SetXAxisTitle t) = s\<lparr>xAxisTitle := t\<rparr>"
| "step e s (SetYAxisTitle t) = s\<lparr>yAxisTitle := t\<rparr>"

definition run :: "env \<Rightarrow> app_state \<Rightarrow> action list \<Rightarrow> app_state" where
  "run e s acts = foldl (step e) s acts"


section \<open>The plot request\<close>

text \<open>
  \<^verbatim>\<open>fileStyles[fileName] || 'solid'\<close>: a missing entry and the empty string are falsy.
\<close>

definition styleOf :: "app_state \<Rightarrow> string \<Rightarrow> string" where
  "styleOf s fileName =
     (case fileStyles s fileName of
        None \<Rightarrow> ''solid''
      | Some style \<Rightarrow> if style = [] then ''solid'' else style)"

text \<open>
  \<^verbatim>\<open>JSON.parse(JSON.stringify(...))\<close> on a trace: \<^verbatim>\<open>NaN\<close>, the infinities and
  \<^verbatim>\<open>undefined\<close> inside an array come back as \<^verbatim>\<open>null\<close>.
\<close>

fun jsonCell :: "cell \<Rightarrow> cell" where
  "jsonCell (CNum (Fin r)) = CNum (Fin r)"
| "jsonCell (CNum v) = CNull"
| "jsonCell CUndefined = CNull"
| "jsonCell c = c"

definition jsonCopy :: "PlotlyTrace \<Rightarrow> PlotlyTrace" where
  "jsonCopy t = t\<lparr>trace_x := map jsonCell (trace_x t), trace_y := map jsonCell (trace_y t)\<rparr>"

text \<open>Lines 280 to 287: the traces that one name of \<^verbatim>\<open>fileOrder\<close> contributes.\<close>

definition tracesOfFile :: "app_state \<Rightarrow> string \<Rightarrow> PlotlyTrace list" where
  "tracesOfFile s fileName =
     (if fileName \<in> selectedFiles s then
        case parsedFileData s fileName of
          None \<Rightarrow> []
        | Some fileTraces \<Rightarrow>
            map (\<lambda>trace. (jsonCopy trace)\<lparr>line_dash := Some (styleOf s fileName)\<rparr>) fileTraces
      else [])"

definition tracesToPlot :: "app_state \<Rightarrow> PlotlyTrace list" where
  "tracesToPlot s = concat (map (tracesOfFile s) (fileOrder s))"

definition plottedFiles :: "app_state \<Rightarrow> string list" where
  "plottedFiles s = filter (\<lambda>name. name \<in> selectedFiles s) (fileOrder s)"

text \<open>
  The layout (lines 292 to 364), reduced to the fields that carry text or geometry: the
  legend shapes and annotations, the three titles and the position of the default legend.
  Colours, fonts, anchors and margins are constants of the source and are left out.
\<close>

record legendShape =
  shape_x0 :: rat
  shape_y0 :: rat
  shape_x1 :: rat
  shape_y1 :: rat
  shape_dash :: string

record annotation =
  ann_x :: rat
  ann_y :: rat
  ann_text :: string

record layout =
  title_text :: string
  xaxis_title :: string
  yaxis_title :: string
  legend_x :: rat
  legend_y :: rat
  shapes :: "legendShape list"
  annotations :: "annotation list"

text \<open>String helpers of the layout; upper-casing is modelled on ASCII letters.\<close>

fun joinWith :: "string \<Rightarrow> string list \<Rightarrow> string" where
  "joinWith sep [] = []"
| "joinWith sep [x] = x"
| "joinWith sep (x # y # ys) = x @ sep @ joinWith sep (y # ys)"

definition toUpperCase :: "char \<Rightarrow> char" where
  "toUpperCase c =
     (if 97 \<le> (of_char c :: nat) \<and> (of_char c :: nat) \<le> 122
      then char_of ((of_char c :: nat) - 32) else c)"

definition capitalize :: "string \<Rightarrow> string" where
  "capitalize style = map toUpperCase (take 1 style) @ drop 1 style"

fun showNat :: "nat \<Rightarrow> string" where
  "showNat n =
     (if n < 10 then [char_of (48 + n)] else showNat (n div 10) @ [char_of (48 + n mod 10)])"

declare showNat.simps [simp del]

text \<open>Lines 299 to 321: the legend entry of the file at position \<open>index\<close>.\<close>

definition yPos :: "nat \<Rightarrow> rat" where
  "yPos index = 1 - (of_nat index * (8 / 100))"

definition legendShapeOf :: "app_state \<Rightarrow> nat \<Rightarrow> string \<Rightarrow> legendShape" where
  "legendShapeOf s index fileName =
     \<lparr>shape_x0 = 102 / 100, shape_y0 = yPos index, shape_x1 = 107 / 100, shape_y1 = yPos index,
      shape_dash = styleOf s fileName\<rparr>"

definition legendAnnotationOf :: "app_state \<Rightarrow> nat \<Rightarrow> string \<Rightarrow> annotation" where
  "legendAnnotationOf s index fileName =
     (let truncatedFileName =
            (if length fileName > 20 then take 17 fileName @ ''...'' else fileName);
          styleName = capitalize (styleOf s fileName);
          traceCount = (case parsedFileData s fileName of None \<Rightarrow> 0 | Some ts \<Rightarrow> length ts);
          traceText =
            (if traceCount > 0
             then '', '' @ showNat traceCount @ '' trace'' @ (if traceCount > 1 then ''s'' else [])
             else [])
      in \<lparr>ann_x = 108 / 100, ann_y = yPos index,
          ann_text = ''<b>'' @ truncatedFileName @ ''</b> ('' @ styleName @ traceText @ '')''\<rparr>)"

definition customLegendHeight :: "app_state \<Rightarrow> rat" where
  "customLegendHeight s = (of_nat (length (plottedFiles s)) * (8 / 100)) + 8 / 100"

definition defaultLegendTopY :: "app_state \<Rightarrow> rat" where
  "defaultLegendTopY s = 108 / 100 - customLegendHeight s"

text \<open>
  Lines 292 to 364. Without traces to plot the layout is the empty object, here \<open>None\<close>.
\<close>

definition plotLayout :: "app_state \<Rightarrow> layout option" where
  "plotLayout s =
     (if length (tracesToPlot s) = 0 then None
      else
        let plotted = plottedFiles s;
            indexed = zip [0..<length plotted] plotted;
            legendShapes = map (\<lambda>(index, fileName). legendShapeOf s index fileName) indexed;
            legendAnnotations =
              map (\<lambda>(index, fileName). legendAnnotationOf s index fileName) indexed
              @ (if length plotted > 0
                 then [\<lparr>ann_x = 102 / 100, ann_y = 108 / 100, ann_text = ''<b>File Styles</b>''\<rparr>]
                 else [])
        in Some
             \<lparr>title_text = ''<b>Plot of '' @ joinWith '', '' plotted @ ''</b>'',
              xaxis_title =
                ''<b>''
                @ (if xAxisTitle s \<noteq> [] then xAxisTitle s
                   else if headers_x (hd (tracesToPlot s)) \<noteq> [] then headers_x (hd (tracesToPlot s))
                   else ''X-Axis'')
                @ ''</b>'',
              yaxis_title = ''<b>'' @ (if yAxisTitle s \<noteq> [] then yAxisTitle s else ''Value'') @ ''</b>'',
              legend_x = 102 / 100,
              legend_y = defaultLegendTopY s,
              shapes = legendShapes,
              annotations = legendAnnotations\<rparr>)"

section \<open>Notions used to state the properties\<close>

text \<open>
  The condition under which the \<^verbatim>\<open>complete\<close> callback registers its file (lines 138 to
  146 and 174): the parser reports no error, there is at least one row and the header has at
  least two columns.
\<close>

definition parsesToSeries :: "env \<Rightarrow> string \<Rightarrow> bool" where
  "parsesToSeries e content =
     (let res = papaParse e content
      in res_errors res = [] \<and> res_data res \<noteq> []
         \<and> (case meta_fields res of None \<Rightarrow> False | Some headers \<Rightarrow> 2 \<le> length headers))"

definition producesSeries :: "env \<Rightarrow> File \<Rightarrow> bool" where
  "producesSeries e f =
     (case file_read f of Loaded content \<Rightarrow> parsesToSeries e content | ReadFailed \<Rightarrow> False)"

text \<open>Every name of the registry order has traces, and at least one.\<close>

definition registryOk :: "app_state \<Rightarrow> bool" where
  "registryOk s =
     (\<forall>f \<in> set (fileOrder s).
        case parsedFileData s f of None \<Rightarrow> False | Some fileTraces \<Rightarrow> fileTraces \<noteq> [])"


text \<open>
  What the loop over the results leaves in the variables of the callback: the three maps and
  the list hold the same names, every registered file has a trace, and the style of a name is
  the palette entry of its last position, counted from the length \<open>fo\<close> of the registry
  order that the callback closes over.
\<close>

definition batchOk :: "string list \<Rightarrow> batch_vars \<Rightarrow> bool" where
  "batchOk fo acc =
     (dom (newParsedData acc) = set (newFileNames acc)
      \<and> dom (newStyles acc) = set (newFileNames acc)
      \<and> (\<forall>n ts. newParsedData acc n = Some ts \<longrightarrow> ts \<noteq> [])
      \<and> (\<forall>k < length (newFileNames acc).
            newFileNames acc ! k \<notin> set (drop (Suc k) (newFileNames acc)) \<longrightarrow>
            newStyles acc (newFileNames acc ! k)
              = Some (LINE_STYLES ! ((length fo + k) mod length LINE_STYLES))))"

text \<open>A batch in which no two files have the same name.\<close>

fun batchNamesDistinct :: "action \<Rightarrow> bool" where
  "batchNamesDistinct (ProcessFiles files completion) = distinct (map file_name files)"
| "batchNamesDistinct a = True"

section \<open>Example inputs\<close>

text \<open>
  A stand-in for the parser that knows four texts: two tables with the columns \<open>t\<close> and
  \<open>a\<close>, a malformed text and a table with a single column.
\<close>

definition exampleRow :: "rat \<Rightarrow> rat \<Rightarrow> row" where
  "exampleRow u v =
     (\<lambda>h. if h = ''t'' then CNum (Fin u) else if h = ''a'' then CNum (Fin v) else CUndefined)"

definition exampleParse :: "string \<Rightarrow> papa_result" where
  "exampleParse content =
     (if content = ''t,a;0,1;1,3'' then
        \<lparr>res_errors = [], res_data = [exampleRow 0 1, exampleRow 1 3],
         meta_fields = Some [''t'', ''a'']\<rparr>
      else if content = ''t,a;0,5'' then
        \<lparr>res_errors = [], res_data = [exampleRow 0 5], meta_fields = Some [''t'', ''a'']\<rparr>
      else if content = ''t;0;1'' then
        \<lparr>res_errors = [], res_data = [exampleRow 0 0, exampleRow 1 0], meta_fields = Some [''t'']\<rparr>
      else
        \<lparr>res_errors = [''Quoted field unterminated''], res_data = [], meta_fields = None\<rparr>)"

definition exampleEnv :: env where
  "exampleEnv = \<lparr>papaParse = exampleParse, stringToNumber = (\<lambda>s. NaN)\<rparr>"

definition fileA :: File where
  "fileA = \<lparr>file_name = ''A.csv'', file_read = Loaded ''t,a;0,1;1,3''\<rparr>"

definition fileB :: File where
  "fileB = \<lparr>file_name = ''B.csv'', file_read = Loaded ''t,a;0,5''\<rparr>"

definition fileA2 :: File where
  "fileA2 = \<lparr>file_name = ''A.csv'', file_read = Loaded ''t,a;0,5''\<rparr>"


section \<open>Properties of the downsampling function\<close>

text \<open>
  Claim C2. For every sequence of points and every target with
  \<open>length points \<le> target\<close> or \<open>target = 0\<close>, the function returns its input unchanged.
\<close>

theorem largestTriangleThreeBuckets_identity:
  "length data \<le> threshold \<or> threshold = 0 \<Longrightarrow>
     largestTriangleThreeBuckets data threshold = data"
  by (auto simp: largestTriangleThreeBuckets_def Let_def)

theorem largestTriangleThreeBuckets_identity_witness:
  "(length [\<lparr>px = Fin 0, py = Fin 1\<rparr>, \<lparr>px = Fin 1, py = NaN\<rparr>] \<le> (5::nat) \<or> (5::nat) = 0)
   \<and> largestTriangleThreeBuckets [\<lparr>px = Fin 0, py = Fin 1\<rparr>, \<lparr>px = Fin 1, py = NaN\<rparr>] 5
       = [\<lparr>px = Fin 0, py = Fin 1\<rparr>, \<lparr>px = Fin 1, py = NaN\<rparr>]"
  using largestTriangleThreeBuckets_identity
    [of "[\<lparr>px = Fin 0, py = Fin 1\<rparr>, \<lparr>px = Fin 1, py = NaN\<rparr>]" 5]
  by simp

subsection \<open>Bucket edges\<close>

text \<open>
  With the exact bucket size, \<^verbatim>\<open>Math.floor(k * every)\<close> is an integer division, consecutive
  edges differ by at least one, and the last edge is \<open>dataLength - 2\<close>.
\<close>

lemma floorTimes_every:
  assumes "3 \<le> t" "t < n"
  shows "floorTimes k (bucketSize n t) = (k * (n - 2)) div (t - 2)"
proof -
  have a: "int n - 2 = int (n - 2)" and b: "int t - 2 = int (t - 2)" using assms by auto
  have "(of_nat k :: rat) * (of_int (int n - 2) / of_int (int t - 2))
        = of_nat (k * (n - 2)) / of_nat (t - 2)"
    unfolding a b by simp
  then show ?thesis
    unfolding floorTimes_def bucketSize_def by (simp only: floor_divide_of_nat_eq nat_int)
qed

lemma edge_step:
  fixes d m k :: nat
  assumes "0 < d" "d \<le> m"
  shows "(k * m) div d < (Suc k * m) div d"
proof -
  have "(k * m) div d + 1 = (k * m + d) div d"
    using assms by simp
  also have "\<dots> \<le> (Suc k * m) div d"
    by (rule div_le_mono) (use assms in simp)
  finally show ?thesis by simp
qed

lemma edge_upper:
  fixes d m k :: nat
  assumes "0 < d" "k \<le> d"
  shows "(k * m) div d \<le> m"
proof -
  have "k * m \<le> d * m" using assms by simp
  then have "(k * m) div d \<le> (d * m) div d"
    by (rule div_le_mono)
  then show ?thesis using assms by simp
qed

subsection \<open>The scan of a bucket\<close>











subsection \<open>The bucket loop\<close>
















subsection \<open>Array reads\<close>

text \<open>Every array read of the bucket loop is inside the array.\<close>

lemma bucket_edges_in_range:
  fixes t n i :: nat
  assumes "3 \<le> t" "t < n" "i < t - 2"
  shows "floorTimes i (bucketSize n t) < floorTimes (i + 1) (bucketSize n t)"
    and "floorTimes (i + 1) (bucketSize n t) + 1 \<le> n - 1"
    and "floorTimes (i + 1) (bucketSize n t) + 1 < min (floorTimes (i + 2) (bucketSize n t) + 1) n"
proof -
  have d: "0 < t - 2" "t - 2 \<le> n - 2" using assms by simp_all
  have up: "(Suc i * (n - 2)) div (t - 2) \<le> n - 2"
    by (rule edge_upper) (use assms d in simp_all)
  have s1: "(i * (n - 2)) div (t - 2) < (Suc i * (n - 2)) div (t - 2)"
    by (rule edge_step [OF d])
  have s2: "(Suc i * (n - 2)) div (t - 2) < (Suc (Suc i) * (n - 2)) div (t - 2)"
    by (rule edge_step [OF d])
  have e1: "floorTimes (i + 1) (bucketSize n t) = (Suc i * (n - 2)) div (t - 2)"
    using floorTimes_every [OF assms(1,2), of "i + 1"] by simp
  have e2: "floorTimes (i + 2) (bucketSize n t) = (Suc (Suc i) * (n - 2)) div (t - 2)"
    using floorTimes_every [OF assms(1,2), of "i + 2"] by simp
  have e0: "floorTimes i (bucketSize n t) = (i * (n - 2)) div (t - 2)"
    by (rule floorTimes_every [OF assms(1,2)])
  show "floorTimes i (bucketSize n t) < floorTimes (i + 1) (bucketSize n t)"
    unfolding e1 e0 by (rule s1)
  show "floorTimes (i + 1) (bucketSize n t) + 1 \<le> n - 1"
    unfolding e1 using up assms by linarith
  show "floorTimes (i + 1) (bucketSize n t) + 1 < min (floorTimes (i + 2) (bucketSize n t) + 1) n"
    unfolding e1 e2 using up s2 assms by linarith
qed

lemma scan_fold_index:
  assumes "snd (foldl (scanCandidate data pointA avg) st ks) = Some (p, k)"
  shows "snd st = Some (p, k) \<or> k \<in> set ks"
  using assms
proof (induction ks arbitrary: st)
  case Nil
  then show ?case by simp
next
  case (Cons j ks)
  then have "snd (scanCandidate data pointA avg st j) = Some (p, k) \<or> k \<in> set ks"
    by simp
  then show ?case
    by (auto simp: scanCandidate_def Let_def split: if_splits)
qed

lemma scanBucket_index:
  "scanBucket data pointA avg prev lo hi = Some (p, k) \<Longrightarrow>
     prev = Some (p, k) \<or> (lo \<le> k \<and> k < hi)"
  unfolding scanBucket_def by (drule scan_fold_index) auto

lemma bucketStep_index:
  assumes "3 \<le> t" "t < length data" "i < t - 2"
    and "a_index v < length data - 1"
    and "\<forall>p k. maxAreaPoint_nextA v = Some (p, k) \<longrightarrow> k < length data - 1"
  shows "a_index (bucketStep data (bucketSize (length data) t) v i) < length data - 1
       \<and> (\<forall>p k. maxAreaPoint_nextA (bucketStep data (bucketSize (length data) t) v i) = Some (p, k)
             \<longrightarrow> k < length data - 1)"
proof -
  let ?e = "bucketSize (length data) t"
  let ?found = "scanBucket data (data ! a_index v) (bucketAverage data ?e i)
                  (maxAreaPoint_nextA v) (floorTimes i ?e + 1) (floorTimes (i + 1) ?e + 1)"
  have hi: "floorTimes (i + 1) ?e + 1 \<le> length data - 1"
    by (rule bucket_edges_in_range(2) [OF assms(1,2,3)])
  have f: "k < length data - 1" if "?found = Some (p, k)" for p k
    using scanBucket_index [OF that] assms(5) hi by auto
  show ?thesis
  proof (cases ?found)
    case None
    then show ?thesis using assms(4) by (simp add: bucketStep_def Let_def)
  next
    case (Some pk)
    obtain p k where pk: "pk = (p, k)" by (cases pk)
    show ?thesis
      using Some f [of p k] by (simp add: bucketStep_def Let_def pk)
  qed
qed

section \<open>Properties of processFiles\<close>

subsection \<open>Promise.all\<close>

lemma those_Some_iff: "those xs = Some ys \<longleftrightarrow> xs = map Some ys"
  by (induction xs arbitrary: ys) (auto split: option.splits)

lemma those_map_Some: "those (map Some ys) = Some ys"
  by (induction ys) simp_all




text \<open>When every promise is fulfilled and every read completes, the values come in the order
  of the promises, whatever the completion order.\<close>

lemma promiseAll_run_fulfilled:
  assumes "ps = map Inr vs" "length slots = length vs"
    and "\<forall>k < length vs. slots ! k = None \<or> slots ! k = Some (vs ! k)"
    and "\<forall>k < length vs. slots ! k = None \<longrightarrow> k \<in> set completion"
  shows "promiseAll_run ps completion slots = Fulfilled vs"
  using assms(2,3,4)
proof (induction completion arbitrary: slots)
  case Nil
  have "slots ! k = Some (vs ! k)" if "k < length vs" for k
    using Nil.prems(2,3) that by (metis empty_iff list.set(1))
  then have "slots = map Some vs"
    using Nil.prems(1) by (intro nth_equalityI) simp_all
  then show ?case by (simp add: those_map_Some)
next
  case (Cons j completion)
  show ?case
  proof (cases "length ps \<le> j \<or> slots ! j \<noteq> None")
    case True
    have "\<forall>k < length vs. slots ! k = None \<longrightarrow> k \<in> set completion"
      using Cons.prems(3) True assms(1) by auto
    then show ?thesis using Cons.IH [OF Cons.prems(1,2)] True by simp
  next
    case False
    then have j: "j < length vs" "slots ! j = None" using assms(1) by auto
    have pj: "ps ! j = Inr (vs ! j)" using assms(1) j(1) by simp
    let ?slots = "slots[j := Some (vs ! j)]"
    have a: "length ?slots = length vs" using Cons.prems(1) by simp
    have b: "\<forall>k < length vs. ?slots ! k = None \<or> ?slots ! k = Some (vs ! k)"
    proof (intro allI impI)
      fix k assume k: "k < length vs"
      show "?slots ! k = None \<or> ?slots ! k = Some (vs ! k)"
        using Cons.prems(1,2) k by (cases "k = j") simp_all
    qed
    have c: "\<forall>k < length vs. ?slots ! k = None \<longrightarrow> k \<in> set completion"
    proof (intro allI impI)
      fix k assume k: "k < length vs" "?slots ! k = None"
      then have kj: "k \<noteq> j" using Cons.prems(1) by auto
      then have "slots ! k = None" using k(2) by simp
      then have "k \<in> set (j # completion)" using Cons.prems(3) k(1) by blast
      then show "k \<in> set completion" using kj by simp
    qed
    show ?thesis using Cons.IH [OF a b c] False pj by simp
  qed
qed

lemma promiseAll_fulfilled:
  assumes "{0..<length vs} \<subseteq> set completion"
  shows "promiseAll (map Inr vs) completion = Fulfilled vs"
  unfolding promiseAll_def
  by (rule promiseAll_run_fulfilled) (use assms in auto)



lemma promiseAll_run_Fulfilled_D:
  assumes "promiseAll_run ps completion slots = Fulfilled vs" "length slots = length ps"
    and "\<forall>k < length ps. \<forall>v. slots ! k = Some v \<longrightarrow> ps ! k = Inr v"
  shows "ps = map Inr vs"
  using assms
proof (induction completion arbitrary: slots)
  case Nil
  then have s: "slots = map Some vs"
    by (simp add: those_Some_iff split: option.splits)
  show ?case
  proof (rule nth_equalityI)
    show "length ps = length (map Inr vs)" using Nil.prems(2) s by simp
  next
    fix k assume k: "k < length ps"
    then have "slots ! k = Some (vs ! k)" using s Nil.prems(2) by simp
    then show "ps ! k = map Inr vs ! k" using Nil.prems(2,3) k s by simp
  qed
next
  case (Cons j completion)
  show ?case
  proof (cases "length ps \<le> j \<or> slots ! j \<noteq> None")
    case True
    then show ?thesis using Cons.IH [of slots] Cons.prems by simp
  next
    case False
    then have j: "j < length ps" "slots ! j = None" by auto
    show ?thesis
    proof (cases "ps ! j")
      case (Inl r)
      then show ?thesis using Cons.prems(1) False by simp
    next
      case (Inr v)
      let ?slots = "slots[j := Some v]"
      have a: "promiseAll_run ps completion ?slots = Fulfilled vs"
        using Cons.prems(1) False Inr by simp
      have c: "\<forall>k < length ps. \<forall>w. ?slots ! k = Some w \<longrightarrow> ps ! k = Inr w"
      proof (intro allI impI)
        fix k w assume k: "k < length ps" "?slots ! k = Some w"
        show "ps ! k = Inr w"
          using Cons.prems(2,3) k Inr by (cases "k = j") simp_all
      qed
      show ?thesis
        by (rule Cons.IH [OF a _ c]) (use Cons.prems(2) in simp)
    qed
  qed
qed

lemma promiseAll_Fulfilled_D:
  "promiseAll ps completion = Fulfilled vs \<Longrightarrow> ps = map Inr vs"
  unfolding promiseAll_def
  by (erule promiseAll_run_Fulfilled_D) simp_all


subsection \<open>The parse callback\<close>

lemma parseComplete_skip:
  assumes "\<not> parsesToSeries e (snd fc)"
  shows "newFileNames (parseComplete e fo acc fc) = newFileNames acc"
    "newParsedData (parseComplete e fo acc fc) = newParsedData acc"
    "newStyles (parseComplete e fo acc fc) = newStyles acc"
  using assms
  by (auto simp: parseComplete_def parsesToSeries_def Let_def split: option.splits)

lemma parseComplete_register:
  assumes "parsesToSeries e (snd fc)"
  shows "\<exists>fileTraces. fileTraces \<noteq> []
     \<and> newFileNames (parseComplete e fo acc fc) = newFileNames acc @ [fst fc]
     \<and> newParsedData (parseComplete e fo acc fc) = (newParsedData acc)(fst fc \<mapsto> fileTraces)
     \<and> newStyles (parseComplete e fo acc fc)
         = (newStyles acc)(fst fc \<mapsto>
             LINE_STYLES ! ((length fo + length (newFileNames acc)) mod length LINE_STYLES))"
proof -
  obtain headers where h: "meta_fields (papaParse e (snd fc)) = Some headers" "2 \<le> length headers"
    and ok: "res_errors (papaParse e (snd fc)) = []" "res_data (papaParse e (snd fc)) \<noteq> []"
    using assms by (auto simp: parsesToSeries_def Let_def split: option.splits)
  have tl: "tl headers \<noteq> []"
    using h(2) by (cases headers) auto
  show ?thesis
    by (rule exI [of _ "map (columnTrace e (fst fc) (res_data (papaParse e (snd fc))) (hd headers))
                          (tl headers)"])
       (use h ok tl in \<open>simp add: parseComplete_def Let_def\<close>)
qed

lemma batchOk_empty: "batchOk fo emptyBatch"
  by (simp add: batchOk_def emptyBatch_def)

lemma batchOk_step:
  assumes "batchOk fo acc"
  shows "batchOk fo (parseComplete e fo acc fc)"
proof (cases "parsesToSeries e (snd fc)")
  case False
  then show ?thesis
    using assms parseComplete_skip [OF False, of fo acc] by (simp add: batchOk_def)
next
  case True
  let ?acc = "parseComplete e fo acc fc"
  let ?names = "newFileNames acc"
  obtain fileTraces where ne: "fileTraces \<noteq> []"
    and names: "newFileNames ?acc = ?names @ [fst fc]"
    and data: "newParsedData ?acc = (newParsedData acc)(fst fc \<mapsto> fileTraces)"
    and styles: "newStyles ?acc
      = (newStyles acc)(fst fc \<mapsto> LINE_STYLES ! ((length fo + length ?names) mod length LINE_STYLES))"
    using parseComplete_register [OF True, of fo acc] by blast
  have d1: "dom (newParsedData ?acc) = set (newFileNames ?acc)"
    using assms by (auto simp: batchOk_def names data)
  have d2: "dom (newStyles ?acc) = set (newFileNames ?acc)"
    using assms by (auto simp: batchOk_def names styles)
  have d3: "\<forall>n ts. newParsedData ?acc n = Some ts \<longrightarrow> ts \<noteq> []"
    using assms ne by (auto simp: batchOk_def data)
  have d4: "newStyles ?acc (newFileNames ?acc ! k)
              = Some (LINE_STYLES ! ((length fo + k) mod length LINE_STYLES))"
    if k: "k < length (newFileNames ?acc)"
      and lastk: "newFileNames ?acc ! k \<notin> set (drop (Suc k) (newFileNames ?acc))" for k
  proof (cases "k < length ?names")
    case True
    have nk: "newFileNames ?acc ! k = ?names ! k"
      using True by (simp add: names nth_append)
    have "?names ! k \<notin> set (drop (Suc k) ?names) \<and> ?names ! k \<noteq> fst fc"
      using lastk True by (auto simp: names nth_append)
    then show ?thesis
      using assms True by (simp add: batchOk_def nk styles)
  next
    case False
    then have "k = length ?names" using k by (simp add: names)
    then show ?thesis by (simp add: names styles)
  qed
  show ?thesis
    unfolding batchOk_def using d1 d2 d3 d4 by blast
qed

lemma batchOk_fold:
  "batchOk fo acc \<Longrightarrow> batchOk fo (foldl (parseComplete e fo) acc results)"
  by (induction results arbitrary: acc) (simp_all add: batchOk_step)

lemma fold_names:
  "newFileNames (foldl (parseComplete e fo) acc results)
     = newFileNames acc @ map fst (filter (\<lambda>fc. parsesToSeries e (snd fc)) results)"
proof (induction results arbitrary: acc)
  case Nil
  then show ?case by simp
next
  case (Cons fc results)
  show ?case
  proof (cases "parsesToSeries e (snd fc)")
    case True
    then show ?thesis
      using Cons [of "parseComplete e fo acc fc"] parseComplete_register [OF True, of fo acc]
      by auto
  next
    case False
    then show ?thesis
      using Cons [of "parseComplete e fo acc fc"] parseComplete_skip(1) [OF False, of fo acc]
      by simp
  qed
qed

subsection \<open>The results of the reads\<close>

lemma fileReadPromise_Inr:
  "fileReadPromise f = Inr v \<Longrightarrow> fst v = file_name f \<and> file_read f = Loaded (snd v)"
  by (auto simp: fileReadPromise_def split: read_outcome.splits)

lemma read_results:
  assumes "map fileReadPromise fs = map Inr vs"
  shows "map fst vs = map file_name fs"
    "map fst (filter (\<lambda>fc. parsesToSeries e (snd fc)) vs)
       = map file_name (filter (producesSeries e) fs)"
  using assms
proof (induction fs arbitrary: vs)
  case Nil
  { case 1 then show ?case by simp }
  { case 2 then show ?case by simp }
next
  case (Cons f fs)
  { case 1
    then obtain v vs' where v: "vs = v # vs'" "fileReadPromise f = Inr v"
      "map fileReadPromise fs = map Inr vs'" by (cases vs) auto
    then show ?case using Cons(1) [of vs'] fileReadPromise_Inr [OF v(2)] by simp }
  { case 2
    then obtain v vs' where v: "vs = v # vs'" "fileReadPromise f = Inr v"
      "map fileReadPromise fs = map Inr vs'" by (cases vs) auto
    then show ?case using Cons(2) [of vs'] fileReadPromise_Inr [OF v(2)]
      by (simp add: producesSeries_def) }
qed

subsection \<open>The merge\<close>

lemma batchOk_no_names:
  assumes "batchOk fo acc" "newFileNames acc = []"
  shows "newParsedData acc = Map.empty" "newStyles acc = Map.empty"
  using assms by (auto simp: batchOk_def)

lemma mergeBatch_fields:
  assumes "batchOk fo acc"
  shows "parsedFileData (mergeBatch acc prev) = parsedFileData prev ++ newParsedData acc"
    "fileOrder (mergeBatch acc prev) = fileOrder prev @ newFileNames acc"
    "selectedFiles (mergeBatch acc prev) = selectedFiles prev \<union> set (newFileNames acc)"
    "fileStyles (mergeBatch acc prev) = fileStyles prev ++ newStyles acc"
    "xAxisTitle (mergeBatch acc prev) = xAxisTitle prev"
    "yAxisTitle (mergeBatch acc prev) = yAxisTitle prev"
  using batchOk_no_names [OF assms] by (auto simp: mergeBatch_def)

lemma emptyBatch_fields:
  "newParsedData emptyBatch = Map.empty" "newFileNames emptyBatch = []"
  "newStyles emptyBatch = Map.empty"
  by (simp_all add: emptyBatch_def)

lemma newFilesOf_Nil: "newFilesOf s [] = []"
  by (simp add: newFilesOf_def)

lemma processResults_fields:
  "parsedFileData (processResults e fo results prev)
     = parsedFileData prev ++ newParsedData (foldl (parseComplete e fo) emptyBatch results)"
  "fileOrder (processResults e fo results prev)
     = fileOrder prev @ newFileNames (foldl (parseComplete e fo) emptyBatch results)"
  "selectedFiles (processResults e fo results prev)
     = selectedFiles prev \<union> set (newFileNames (foldl (parseComplete e fo) emptyBatch results))"
  "fileStyles (processResults e fo results prev)
     = fileStyles prev ++ newStyles (foldl (parseComplete e fo) emptyBatch results)"
  "xAxisTitle (processResults e fo results prev) = xAxisTitle prev"
  "yAxisTitle (processResults e fo results prev) = yAxisTitle prev"
proof -
  have ok: "batchOk fo (foldl (parseComplete e fo) emptyBatch results)"
    by (rule batchOk_fold [OF batchOk_empty])
  note m = mergeBatch_fields [OF ok]
  show "parsedFileData (processResults e fo results prev)
     = parsedFileData prev ++ newParsedData (foldl (parseComplete e fo) emptyBatch results)"
    "fileOrder (processResults e fo results prev)
     = fileOrder prev @ newFileNames (foldl (parseComplete e fo) emptyBatch results)"
    "selectedFiles (processResults e fo results prev)
     = selectedFiles prev \<union> set (newFileNames (foldl (parseComplete e fo) emptyBatch results))"
    "fileStyles (processResults e fo results prev)
     = fileStyles prev ++ newStyles (foldl (parseComplete e fo) emptyBatch results)"
    "xAxisTitle (processResults e fo results prev) = xAxisTitle prev"
    "yAxisTitle (processResults e fo results prev) = yAxisTitle prev"
    unfolding processResults_def Let_def
    by (simp_all add: m split: option.split)
qed

text \<open>Whatever happens to a batch, the registry changes by a merge of well-formed variables
  whose names are names of new files of the batch.\<close>

lemma processFiles_merge:
  "\<exists>acc. batchOk (fileOrder s) acc
     \<and> set (newFileNames acc) \<subseteq> file_name ` set (newFilesOf s files)
     \<and> parsedFileData (processFiles e s files completion) = parsedFileData s ++ newParsedData acc
     \<and> fileOrder (processFiles e s files completion) = fileOrder s @ newFileNames acc
     \<and> selectedFiles (processFiles e s files completion) = selectedFiles s \<union> set (newFileNames acc)
     \<and> fileStyles (processFiles e s files completion) = fileStyles s ++ newStyles acc
     \<and> xAxisTitle (processFiles e s files completion) = xAxisTitle s
     \<and> yAxisTitle (processFiles e s files completion) = yAxisTitle s"
proof (cases "promiseAll (map fileReadPromise (newFilesOf s files)) completion")
  case (Fulfilled vs)
  show ?thesis
  proof (cases "files = [] \<or> newFilesOf s files = []")
    case True
    then show ?thesis
      by (intro exI [of _ emptyBatch])
         (auto simp: processFiles_def Let_def batchOk_empty emptyBatch_fields newFilesOf_Nil)
  next
    case False
    let ?acc = "foldl (parseComplete e (fileOrder s)) emptyBatch vs"
    have ps: "map fileReadPromise (newFilesOf s files) = map Inr vs"
      using Fulfilled by (rule promiseAll_Fulfilled_D)
    have "newFileNames ?acc = map fst (filter (\<lambda>fc. parsesToSeries e (snd fc)) vs)"
      by (simp add: fold_names emptyBatch_fields)
    then have "set (newFileNames ?acc) \<subseteq> set (map fst vs)" by auto
    then have sub: "set (newFileNames ?acc) \<subseteq> file_name ` set (newFilesOf s files)"
      unfolding read_results(1) [OF ps] by simp
    have ok: "batchOk (fileOrder s) ?acc"
      by (rule batchOk_fold [OF batchOk_empty])
    show ?thesis
      by (intro exI [of _ ?acc])
         (use False Fulfilled sub ok in \<open>simp add: processFiles_def Let_def processResults_fields\<close>)
  qed
next
  case Pending
  then show ?thesis
    by (intro exI [of _ emptyBatch])
       (auto simp: processFiles_def Let_def batchOk_empty emptyBatch_fields newFilesOf_Nil)
next
  case (Rejected msg)
  then show ?thesis
    by (intro exI [of _ emptyBatch])
       (auto simp: processFiles_def Let_def batchOk_empty emptyBatch_fields newFilesOf_Nil)
qed

lemma processFiles_fulfilled_order:
  assumes "promiseAll (map fileReadPromise (newFilesOf s files)) completion = Fulfilled vs"
  shows "fileOrder (processFiles e s files completion)
           = fileOrder s @ map file_name (filter (producesSeries e) (newFilesOf s files))"
proof (cases "files = [] \<or> newFilesOf s files = []")
  case True
  then show ?thesis by (auto simp: processFiles_def Let_def newFilesOf_Nil)
next
  case False
  have ps: "map fileReadPromise (newFilesOf s files) = map Inr vs"
    using assms by (rule promiseAll_Fulfilled_D)
  show ?thesis
    using False assms
    by (simp add: processFiles_def Let_def processResults_fields fold_names emptyBatch_fields
        read_results(2) [OF ps])
qed

lemma processFiles_not_fulfilled:
  assumes "\<forall>vs. promiseAll (map fileReadPromise (newFilesOf s files)) completion \<noteq> Fulfilled vs"
  shows "parsedFileData (processFiles e s files completion) = parsedFileData s
       \<and> fileOrder (processFiles e s files completion) = fileOrder s
       \<and> selectedFiles (processFiles e s files completion) = selectedFiles s
       \<and> fileStyles (processFiles e s files completion) = fileStyles s
       \<and> downsampledFiles (processFiles e s files completion) = downsampledFiles s"
  using assms
  by (cases "promiseAll (map fileReadPromise (newFilesOf s files)) completion")
     (auto simp: processFiles_def Let_def)

subsection \<open>Batches\<close>

lemma fileReadPromise_loaded:
  assumes "\<forall>f \<in> set fs. file_read f \<noteq> ReadFailed"
  shows "\<exists>vs. map fileReadPromise fs = map Inr vs \<and> length vs = length fs"
  using assms
proof (induction fs)
  case Nil
  then show ?case by simp
next
  case (Cons f fs)
  then obtain vs where vs: "map fileReadPromise fs = map Inr vs" "length vs = length fs"
    by auto
  obtain content where "file_read f = Loaded content"
    using Cons.prems by (cases "file_read f") auto
  then have "map fileReadPromise (f # fs) = map Inr ((file_name f, content) # vs)"
    using vs by (simp add: fileReadPromise_def)
  then show ?case using vs(2) by (metis length_Cons)
qed


text \<open>
  Claim C4. When the reads of the new files of a batch all succeed and all complete, in any
  order, the files that produce series are appended to the registry order in the order of
  submission.
\<close>

theorem processFiles_insertion_order:
  assumes "\<forall>f \<in> set (newFilesOf s files). file_read f \<noteq> ReadFailed"
    and "{0..<length (newFilesOf s files)} \<subseteq> set completion"
  shows "fileOrder (processFiles e s files completion)
           = fileOrder s @ map file_name (filter (producesSeries e) (newFilesOf s files))"
proof -
  obtain vs where vs: "map fileReadPromise (newFilesOf s files) = map Inr vs"
    "length vs = length (newFilesOf s files)"
    using fileReadPromise_loaded [OF assms(1)] by blast
  have "promiseAll (map fileReadPromise (newFilesOf s files)) completion = Fulfilled vs"
    unfolding vs(1) by (rule promiseAll_fulfilled) (use assms(2) vs(2) in simp)
  then show ?thesis by (rule processFiles_fulfilled_order)
qed

theorem processFiles_insertion_order_witness:
  "list_all (\<lambda>f. file_read f \<noteq> ReadFailed) (newFilesOf initialState [fileA, fileB])
   \<and> {0..<length (newFilesOf initialState [fileA, fileB])} \<subseteq> set [1, 0]
   \<and> fileOrder (processFiles exampleEnv initialState [fileA, fileB] [1, 0]) = [''A.csv'', ''B.csv'']"
  using processFiles_insertion_order [of initialState "[fileA, fileB]" "[1, 0]" exampleEnv]
  by (simp add: newFilesOf_def initialState_def fileA_def fileB_def producesSeries_def
      parsesToSeries_def exampleEnv_def exampleParse_def atLeast0LessThan lessThan_Suc
      numeral_2_eq_2)

text \<open>
  Claim C10. Every name that a batch appends to the registry order is in the selection
  right after the batch.
\<close>

theorem processFiles_selects_new_files:
  "set (drop (length (fileOrder s)) (fileOrder (processFiles e s files completion)))
     \<subseteq> selectedFiles (processFiles e s files completion)"
  using processFiles_merge [of s files e completion] by auto

theorem processFiles_selects_new_files_witness:
  "set (drop (length (fileOrder initialState))
          (fileOrder (processFiles exampleEnv initialState [fileA, fileB] [0, 1])))
     \<subseteq> selectedFiles (processFiles exampleEnv initialState [fileA, fileB] [0, 1])
   \<and> fileOrder (processFiles exampleEnv initialState [fileA, fileB] [0, 1]) = [''A.csv'', ''B.csv'']
   \<and> selectedFiles (processFiles exampleEnv initialState [fileA, fileB] [0, 1])
       = {''A.csv'', ''B.csv''}"
proof -
  have "fileOrder (processFiles exampleEnv initialState [fileA, fileB] [0, 1]) = [''A.csv'', ''B.csv'']"
    by code_simp
  moreover have "selectedFiles (processFiles exampleEnv initialState [fileA, fileB] [0, 1])
       = {''A.csv'', ''B.csv''}"
    by code_simp
  ultimately show ?thesis
    using processFiles_selects_new_files [of initialState exampleEnv "[fileA, fileB]" "[0, 1]"]
    by blast
qed




section \<open>Properties of the registry and the plot request\<close>

subsection \<open>Default styles\<close>







subsection \<open>The registry holds traces for every name\<close>

lemma processFiles_registryOk:
  assumes "registryOk s"
  shows "registryOk (processFiles e s files completion)"
proof -
  let ?s = "processFiles e s files completion"
  obtain acc where ok: "batchOk (fileOrder s) acc"
    and order: "fileOrder ?s = fileOrder s @ newFileNames acc"
    and data: "parsedFileData ?s = parsedFileData s ++ newParsedData acc"
    using processFiles_merge [of s files e completion] by blast
  have dom: "dom (newParsedData acc) = set (newFileNames acc)"
    and ne: "\<And>n ts. newParsedData acc n = Some ts \<Longrightarrow> ts \<noteq> []"
    using ok by (auto simp: batchOk_def)
  have "case parsedFileData ?s f of None \<Rightarrow> False | Some ts \<Rightarrow> ts \<noteq> []"
    if f: "f \<in> set (fileOrder ?s)" for f
  proof (cases "newParsedData acc f")
    case None
    then have "f \<notin> set (newFileNames acc)" using dom by blast
    then have "f \<in> set (fileOrder s)" using f order by simp
    then show ?thesis
      using assms None by (simp add: registryOk_def data map_add_def)
  next
    case (Some ts)
    then show ?thesis using ne [OF Some] by (simp add: data map_add_def)
  qed
  then show ?thesis unfolding registryOk_def by blast
qed

lemma step_registryOk:
  assumes "registryOk s"
  shows "registryOk (step e s a)"
proof (cases a)
  case (ProcessFiles files completion)
  then show ?thesis using assms by (simp add: processFiles_registryOk)
qed (use assms in \<open>simp_all add: registryOk_def handleClearAll_def
        handleSelectionChange_def handleStyleChange_def\<close>)

lemma run_registryOk: "registryOk s \<Longrightarrow> registryOk (run e s acts)"
proof (induction acts arbitrary: s)
  case Nil
  then show ?case by (simp add: run_def)
next
  case (Cons a acts)
  have "registryOk (run e (step e s a) acts)"
    by (rule Cons.IH) (rule step_registryOk [OF Cons.prems])
  then show ?case by (simp add: run_def)
qed

lemma reachable_registryOk: "registryOk (run e initialState acts)"
  by (rule run_registryOk) (simp add: registryOk_def initialState_def)

subsection \<open>The legend\<close>

lemma plotted_has_traces:
  assumes "registryOk s" "plottedFiles s \<noteq> []"
  shows "tracesToPlot s \<noteq> []"
proof -
  obtain f where f: "f \<in> set (fileOrder s)" "f \<in> selectedFiles s"
    using assms(2) by (auto simp: plottedFiles_def filter_empty_conv)
  then obtain ts where "parsedFileData s f = Some ts" "ts \<noteq> []"
    using assms(1) by (auto simp: registryOk_def split: option.splits)
  then have "tracesOfFile s f \<noteq> []"
    using f(2) by (simp add: tracesOfFile_def)
  then show ?thesis
    using f(1) by (auto simp: tracesToPlot_def)
qed

lemma plotLayout_legend:
  assumes "tracesToPlot s \<noteq> []"
  shows "\<exists>L. plotLayout s = Some L
     \<and> shapes L = map (\<lambda>(index, fileName). legendShapeOf s index fileName)
                    (zip [0..<length (plottedFiles s)] (plottedFiles s))
     \<and> take (length (plottedFiles s)) (annotations L)
         = map (\<lambda>(index, fileName). legendAnnotationOf s index fileName)
             (zip [0..<length (plottedFiles s)] (plottedFiles s))
     \<and> legend_y L = defaultLegendTopY s"
  using assms by (simp add: plotLayout_def Let_def)

text \<open>
  Claim C9. In every reachable state in which a registered file is selected, the layout has
  one legend slot per selected file, in registry order; the slot of the \<open>i\<close>-th file is at
  height \<open>1 - i * 0.08\<close> and carries the file's style; the default legend begins at
  \<open>1.08 - (count * 0.08 + 0.08)\<close>, which is at least a row height below every slot.
\<close>

theorem legend_layout:
  assumes "plottedFiles (run e initialState acts) \<noteq> []"
  shows "\<exists>L. plotLayout (run e initialState acts) = Some L
     \<and> length (shapes L) = length (plottedFiles (run e initialState acts))
     \<and> (\<forall>i < length (plottedFiles (run e initialState acts)).
            shape_y0 (shapes L ! i) = 1 - of_nat i * (8 / 100)
          \<and> shape_y1 (shapes L ! i) = 1 - of_nat i * (8 / 100)
          \<and> ann_y (annotations L ! i) = 1 - of_nat i * (8 / 100)
          \<and> shape_dash (shapes L ! i)
              = styleOf (run e initialState acts) (plottedFiles (run e initialState acts) ! i)
          \<and> legend_y L + 8 / 100 \<le> shape_y0 (shapes L ! i))
     \<and> legend_y L
         = 108 / 100 - (of_nat (length (plottedFiles (run e initialState acts))) * (8 / 100) + 8 / 100)"
proof -
  let ?s = "run e initialState acts"
  let ?n = "length (plottedFiles ?s)"
  let ?zip = "zip [0..<?n] (plottedFiles ?s)"
  have "tracesToPlot ?s \<noteq> []"
    using reachable_registryOk assms by (rule plotted_has_traces)
  then obtain L where L: "plotLayout ?s = Some L"
    and sh: "shapes L = map (\<lambda>(index, fileName). legendShapeOf ?s index fileName) ?zip"
    and an: "take ?n (annotations L)
               = map (\<lambda>(index, fileName). legendAnnotationOf ?s index fileName) ?zip"
    and ly: "legend_y L = defaultLegendTopY ?s"
    using plotLayout_legend [of ?s] by blast
  have len: "length (shapes L) = ?n" by (simp add: sh)
  have top: "legend_y L = 108 / 100 - (of_nat ?n * (8 / 100) + 8 / 100)"
    by (simp add: ly defaultLegendTopY_def customLegendHeight_def)
  have slot: "shape_y0 (shapes L ! i) = 1 - of_nat i * (8 / 100)
          \<and> shape_y1 (shapes L ! i) = 1 - of_nat i * (8 / 100)
          \<and> ann_y (annotations L ! i) = 1 - of_nat i * (8 / 100)
          \<and> shape_dash (shapes L ! i) = styleOf ?s (plottedFiles ?s ! i)
          \<and> legend_y L + 8 / 100 \<le> shape_y0 (shapes L ! i)" if i: "i < ?n" for i
  proof -
    have z: "?zip ! i = (i, plottedFiles ?s ! i)" using i by simp
    have s1: "shapes L ! i = legendShapeOf ?s i (plottedFiles ?s ! i)"
      using i by (simp add: sh)
    have "annotations L ! i = take ?n (annotations L) ! i" using i by simp
    also have "\<dots> = legendAnnotationOf ?s i (plottedFiles ?s ! i)"
      unfolding an using i by simp
    finally have a1: "annotations L ! i = legendAnnotationOf ?s i (plottedFiles ?s ! i)" .
    have "Suc i \<le> ?n" using i by simp
    then have "(of_nat (Suc i) :: rat) \<le> of_nat ?n"
      by (simp only: of_nat_le_iff)
    then have "(of_nat i :: rat) + 1 \<le> of_nat ?n"
      by simp
    then have gap: "legend_y L + 8 / 100 \<le> 1 - of_nat i * (8 / 100)"
      unfolding top by simp
    show ?thesis
      using gap by (simp add: s1 a1 legendShapeOf_def legendAnnotationOf_def yPos_def Let_def)
  qed
  show ?thesis
    using L len top slot by blast
qed

theorem legend_layout_witness:
  "plottedFiles (run exampleEnv initialState [ProcessFiles [fileA, fileB] [1, 0]]) \<noteq> []
   \<and> (\<exists>L. plotLayout (run exampleEnv initialState [ProcessFiles [fileA, fileB] [1, 0]]) = Some L
        \<and> length (shapes L) = 2
        \<and> shape_y0 (shapes L ! 0) = 1
        \<and> shape_y0 (shapes L ! 1) = 92 / 100
        \<and> ann_y (annotations L ! 1) = 92 / 100
        \<and> shape_dash (shapes L ! 1) = ''dash''
        \<and> legend_y L = 84 / 100)"
proof -
  let ?s = "run exampleEnv initialState [ProcessFiles [fileA, fileB] [1, 0]]"
  have p: "plottedFiles ?s = [''A.csv'', ''B.csv'']" by code_simp
  have st: "styleOf ?s ''B.csv'' = ''dash''" by code_simp
  have h: "plottedFiles ?s \<noteq> []" using p by simp
  obtain L where L: "plotLayout ?s = Some L" "length (shapes L) = length (plottedFiles ?s)"
    and slots: "\<forall>i < length (plottedFiles ?s).
            shape_y0 (shapes L ! i) = 1 - of_nat i * (8 / 100)
          \<and> shape_y1 (shapes L ! i) = 1 - of_nat i * (8 / 100)
          \<and> ann_y (annotations L ! i) = 1 - of_nat i * (8 / 100)
          \<and> shape_dash (shapes L ! i) = styleOf ?s (plottedFiles ?s ! i)
          \<and> legend_y L + 8 / 100 \<le> shape_y0 (shapes L ! i)"
    and top: "legend_y L = 108 / 100 - (of_nat (length (plottedFiles ?s)) * (8 / 100) + 8 / 100)"
    using legend_layout [OF h] by blast
  have s0: "shape_y0 (shapes L ! 0) = 1"
    using slots [rule_format, of 0] p by simp
  have s1: "shape_y0 (shapes L ! 1) = 92 / 100" "ann_y (annotations L ! 1) = 92 / 100"
    "shape_dash (shapes L ! 1) = ''dash''"
    using slots [rule_format, of 1] p st by simp_all
  have t: "legend_y L = 84 / 100" using top p by simp
  have n: "length (shapes L) = 2" using L(2) p by simp
  show ?thesis using h L(1) n s0 s1 t by blast
qed

subsection \<open>Style changes\<close>

lemma jsonCopy_dash: "line_dash (jsonCopy t) = line_dash t"
  by (simp add: jsonCopy_def)




subsection \<open>Clear all\<close>

text \<open>
  Claim C8. From every state, clear-all empties the parsed data, the registry order, the
  selection, the styles and the downsampled flags, resets both axis titles and the error,
  and leaves no trace to plot and the empty layout.
\<close>

theorem handleClearAll_resets:
  "parsedFileData (handleClearAll s) = Map.empty
   \<and> fileOrder (handleClearAll s) = []
   \<and> selectedFiles (handleClearAll s) = {}
   \<and> fileStyles (handleClearAll s) = Map.empty
   \<and> downsampledFiles (handleClearAll s) = {}
   \<and> xAxisTitle (handleClearAll s) = []
   \<and> yAxisTitle (handleClearAll s) = []
   \<and> error (handleClearAll s) = None
   \<and> tracesToPlot (handleClearAll s) = []
   \<and> plotLayout (handleClearAll s) = None"
  by (simp add: handleClearAll_def tracesToPlot_def plotLayout_def)

theorem handleClearAll_resets_witness:
  "length (fileOrder (run exampleEnv initialState
             [ProcessFiles [fileA, fileB] [0, 1], SelectionChange ''A.csv''])) = 2
   \<and> selectedFiles (run exampleEnv initialState
             [ProcessFiles [fileA, fileB] [0, 1], SelectionChange ''A.csv'']) = {''B.csv''}
   \<and> fileOrder (handleClearAll (run exampleEnv initialState
             [ProcessFiles [fileA, fileB] [0, 1], SelectionChange ''A.csv''])) = []
   \<and> selectedFiles (handleClearAll (run exampleEnv initialState
             [ProcessFiles [fileA, fileB] [0, 1], SelectionChange ''A.csv''])) = {}
   \<and> tracesToPlot (handleClearAll (run exampleEnv initialState
             [ProcessFiles [fileA, fileB] [0, 1], SelectionChange ''A.csv''])) = []
   \<and> plotLayout (handleClearAll (run exampleEnv initialState
             [ProcessFiles [fileA, fileB] [0, 1], SelectionChange ''A.csv''])) = None"
proof -
  let ?s = "run exampleEnv initialState
              [ProcessFiles [fileA, fileB] [0, 1], SelectionChange ''A.csv'']"
  have a: "length (fileOrder ?s) = 2" by code_simp
  have b: "selectedFiles ?s = {''B.csv''}" by code_simp
  show ?thesis
    using handleClearAll_resets [of ?s] a b by blast
qed

subsection \<open>Names that are registered already\<close>

lemma processFiles_keeps_registered:
  assumes "parsedFileData s n \<noteq> None"
  shows "parsedFileData (processFiles e s files completion) n = parsedFileData s n
       \<and> fileStyles (processFiles e s files completion) n = fileStyles s n
       \<and> n \<notin> set (drop (length (fileOrder s)) (fileOrder (processFiles e s files completion)))"
proof -
  let ?s = "processFiles e s files completion"
  obtain acc where ok: "batchOk (fileOrder s) acc"
    and sub: "set (newFileNames acc) \<subseteq> file_name ` set (newFilesOf s files)"
    and order: "fileOrder ?s = fileOrder s @ newFileNames acc"
    and data: "parsedFileData ?s = parsedFileData s ++ newParsedData acc"
    and styles: "fileStyles ?s = fileStyles s ++ newStyles acc"
    using processFiles_merge [of s files e completion] by blast
  have "n \<notin> file_name ` set (newFilesOf s files)"
    using assms by (auto simp: newFilesOf_def)
  then have n: "n \<notin> set (newFileNames acc)" using sub by blast
  then have "newParsedData acc n = None" "newStyles acc n = None"
    using ok by (auto simp: batchOk_def)
  then show ?thesis
    using n by (simp add: order data styles map_add_def)
qed

lemma processFiles_order_form:
  "\<exists>Q. fileOrder (processFiles e s files completion)
          = fileOrder s @ map file_name (filter Q (newFilesOf s files))"
proof (cases "promiseAll (map fileReadPromise (newFilesOf s files)) completion")
  case (Fulfilled vs)
  then show ?thesis using processFiles_fulfilled_order by blast
next
  case Pending
  then have "fileOrder (processFiles e s files completion)
               = fileOrder s @ map file_name (filter (\<lambda>f. False) (newFilesOf s files))"
    using processFiles_not_fulfilled [of s files completion e] by simp
  then show ?thesis by blast
next
  case (Rejected msg)
  then have "fileOrder (processFiles e s files completion)
               = fileOrder s @ map file_name (filter (\<lambda>f. False) (newFilesOf s files))"
    using processFiles_not_fulfilled [of s files completion e] by simp
  then show ?thesis by blast
qed

lemma processFiles_distinct:
  assumes "distinct (fileOrder s)" "registryOk s" "distinct (map file_name files)"
  shows "distinct (fileOrder (processFiles e s files completion))"
proof -
  obtain Q where order: "fileOrder (processFiles e s files completion)
          = fileOrder s @ map file_name (filter Q (newFilesOf s files))"
    using processFiles_order_form by blast
  have d: "distinct (map file_name (filter Q (newFilesOf s files)))"
    unfolding newFilesOf_def using assms(3) by (simp add: distinct_map_filter)
  have "parsedFileData s n \<noteq> None" if "n \<in> set (fileOrder s)" for n
    using assms(2) that by (auto simp: registryOk_def split: option.splits)
  then have "set (fileOrder s) \<inter> set (map file_name (filter Q (newFilesOf s files))) = {}"
    by (fastforce simp: newFilesOf_def)
  then show ?thesis
    unfolding order using assms(1) d by simp
qed

text \<open>The spec's example: A, then B, then A again.\<close>

lemma resubmission_example:
  "fileOrder (run exampleEnv initialState
      [ProcessFiles [fileA] [0], ProcessFiles [fileB] [0], ProcessFiles [fileA2] [0]])
     = [''A.csv'', ''B.csv'']
   \<and> parsedFileData (run exampleEnv initialState
      [ProcessFiles [fileA] [0], ProcessFiles [fileB] [0], ProcessFiles [fileA2] [0]]) ''A.csv''
     = parsedFileData (run exampleEnv initialState [ProcessFiles [fileA] [0]]) ''A.csv''
   \<and> fileStyles (run exampleEnv initialState
      [ProcessFiles [fileA] [0], ProcessFiles [fileB] [0], ProcessFiles [fileA2] [0]]) ''A.csv''
     = Some ''solid''"
  by code_simp

text \<open>
  Claim C5 at a batch that holds two files of the same name: both pass the filter of line
  111, both are pushed to the registry order, and the traces and the style of the second
  replace those of the first.
\<close>

theorem processFiles_duplicate_in_batch:
  "fileOrder (processFiles exampleEnv initialState [fileA, fileA2] [0, 1]) = [''A.csv'', ''A.csv'']
   \<and> \<not> distinct (fileOrder (processFiles exampleEnv initialState [fileA, fileA2] [0, 1]))
   \<and> map_option (map trace_y)
        (parsedFileData (processFiles exampleEnv initialState [fileA] [0]) ''A.csv'')
       = Some [[CNum (Fin 1), CNum (Fin 3)]]
   \<and> map_option (map trace_y)
        (parsedFileData (processFiles exampleEnv initialState [fileA, fileA2] [0, 1]) ''A.csv'')
       = Some [[CNum (Fin 5)]]
   \<and> fileStyles (processFiles exampleEnv initialState [fileA, fileA2] [0, 1]) ''A.csv''
       = Some ''dash''"
  by code_simp

subsection \<open>Batches with distinct names\<close>

lemma step_distinct:
  assumes "distinct (fileOrder s)" "registryOk s" "batchNamesDistinct a"
  shows "distinct (fileOrder (step e s a))"
proof (cases a)
  case (ProcessFiles files completion)
  then show ?thesis using assms by (simp add: processFiles_distinct)
qed (use assms in \<open>simp_all add: handleClearAll_def handleSelectionChange_def
       handleStyleChange_def\<close>)

lemma run_distinct_from:
  "distinct (fileOrder s) \<Longrightarrow> registryOk s \<Longrightarrow> \<forall>a \<in> set acts. batchNamesDistinct a \<Longrightarrow>
     distinct (fileOrder (run e s acts))"
proof (induction acts arbitrary: s)
  case Nil
  then show ?case by (simp add: run_def)
next
  case (Cons a acts)
  have "distinct (fileOrder (run e (step e s a) acts))"
  proof (rule Cons.IH)
    show "distinct (fileOrder (step e s a))"
      using Cons.prems by (simp add: step_distinct)
    show "registryOk (step e s a)"
      using Cons.prems(2) by (rule step_registryOk)
    show "\<forall>a \<in> set acts. batchNamesDistinct a"
      using Cons.prems(3) by simp
  qed
  then show ?case by (simp add: run_def)
qed

lemma run_distinct:
  "\<forall>a \<in> set acts. batchNamesDistinct a \<Longrightarrow> distinct (fileOrder (run e initialState acts))"
  by (rule run_distinct_from) (simp_all add: initialState_def registryOk_def)

end
